theory Spec2Isabelle
  imports Main "HOL-Library.Sublist"
begin

section \<open>The patch script \<open>fix_defer.py\<close>\<close>

text \<open>
  The script reads one file, applies three literal replacements to its text and writes
  the text back:
  \<^verbatim>\<open>
  with open("app/routes/app._index.tsx", "r") as f:
      content = f.read()

  content = content.replace("defer, Await } from \"react-router\";", "Await } from \"react-router\";")
  content = content.replace("return defer({", "return {")
  content = content.replace("  });\n};", "  };\n};")

  with open("app/routes/app._index.tsx", "w") as f:
      f.write(content)
  \<close>
  Text is a \<^typ>\<open>string\<close>; every literal of the script is ASCII. The file contents of
  the model are the decoded text, as \<^verbatim>\<open>f.read()\<close> returns it.
\<close>

subsection \<open>Python's \<open>str.replace\<close>\<close>

text \<open>
  \<^verbatim>\<open>content.replace(old, new)\<close> scans \<open>content\<close> from the left; where \<open>old\<close> starts it
  emits \<open>new\<close> and continues behind the match, otherwise it copies one character. An empty
  \<open>old\<close> matches before every character and at the end. It never raises on strings, so the
  model is a total function into \<^typ>\<open>string\<close>.
\<close>

function replace :: "string \<Rightarrow> string \<Rightarrow> string \<Rightarrow> string" where
  "replace [] old new = (if old = [] then new else [])"
| "replace (c # cs) old new =
     (if old = [] then new @ c # replace cs old new
      else if prefix old (c # cs) then new @ replace (drop (length old) (c # cs)) old new
      else c # replace cs old new)"
  by pat_completeness auto
termination
  by (relation "measure (\<lambda>(content, old, new). length content)") auto

subsection \<open>The three rules and their chain\<close>

definition search1 :: string where
  "search1 = ''defer, Await } from \"react-router\";''"

definition replacement1 :: string where
  "replacement1 = ''Await } from \"react-router\";''"

definition search2 :: string where
  "search2 = ''return defer({''"

definition replacement2 :: string where
  "replacement2 = ''return {''"

definition search3 :: string where
  "search3 = ''  });\<newline>};''"

definition replacement3 :: string where
  "replacement3 = ''  };\<newline>};''"

definition rules :: "(string \<times> string) list" where
  "rules = [(search1, replacement1), (search2, replacement2), (search3, replacement3)]"

definition transform :: "string \<Rightarrow> string" where
  "transform content =
     (let content = replace content search1 replacement1;
          content = replace content search2 replacement2;
          content = replace content search3 replacement3
      in content)"

subsection \<open>The file system and the script\<close>

text \<open>
  A file has its text and two permission bits. The world is the map from paths to files
  together with the trace of the file operations performed so far; the script has no other
  effect (it prints nothing and reads no argument or environment variable). An operation
  that raises leaves the world as it was, and the run ends with that error.
\<close>

datatype error = FileNotFoundError | PermissionError

datatype mode = Read_mode | Write_mode

datatype event = Open_file string mode | Read_file string | Write_file string string | Close_file string

fun event_path :: "event \<Rightarrow> string" where
  "event_path (Open_file p m) = p"
| "event_path (Read_file p) = p"
| "event_path (Write_file p s) = p"
| "event_path (Close_file p) = p"

record textfile =
  contents :: string
  readable :: bool
  writable :: bool

record world =
  files :: "string \<rightharpoonup> textfile"
  trace :: "event list"

definition target_path :: string where
  "target_path = ''app/routes/app._index.tsx''"

text \<open>\<^verbatim>\<open>with open(path, "r") as f: content = f.read()\<close>\<close>

definition read_text :: "string \<Rightarrow> world \<Rightarrow> (error + string) \<times> world" where
  "read_text path w =
     (case files w path of
        None \<Rightarrow> (Inl FileNotFoundError, w)
      | Some f \<Rightarrow>
          if readable f
          then (Inr (contents f),
                w\<lparr>trace := trace w @ [Open_file path Read_mode, Read_file path, Close_file path]\<rparr>)
          else (Inl PermissionError, w))"

text \<open>
  \<^verbatim>\<open>with open(path, "w") as f: f.write(content)\<close>: mode \<open>"w"\<close> truncates an existing
  file and creates a missing one.
\<close>

definition write_text :: "string \<Rightarrow> string \<Rightarrow> world \<Rightarrow> error option \<times> world" where
  "write_text path s w =
     (case files w path of
        None \<Rightarrow>
          (None,
           w\<lparr>files := (files w)(path \<mapsto> \<lparr>contents = s, readable = True, writable = True\<rparr>),
             trace := trace w @ [Open_file path Write_mode, Write_file path s, Close_file path]\<rparr>)
      | Some f \<Rightarrow>
          if writable f
          then (None,
                w\<lparr>files := (files w)(path \<mapsto> f\<lparr>contents := s\<rparr>),
                  trace := trace w @ [Open_file path Write_mode, Write_file path s, Close_file path]\<rparr>)
          else (Some PermissionError, w))"

definition main :: "world \<Rightarrow> error option \<times> world" where
  "main w =
     (case read_text target_path w of
        (Inl e, w') \<Rightarrow> (Some e, w')
      | (Inr content, w') \<Rightarrow> write_text target_path (transform content) w')"

subsection \<open>Notions used to state the properties\<close>

text \<open>The number of positions of \<open>C\<close> at which \<open>s\<close> starts.\<close>

definition occurrences :: "string \<Rightarrow> string \<Rightarrow> nat" where
  "occurrences s C = length (filter (prefix s) (suffixes C))"

text \<open>
  Two non-empty strings are overlap free when no occurrence of one can share a character
  with an occurrence of the other: neither starts inside the other.
\<close>

definition starts_inside :: "string \<Rightarrow> string \<Rightarrow> bool" where
  "starts_inside s m = list_ex (\<lambda>t. t \<noteq> [] \<and> (prefix s t \<or> prefix t s)) (suffixes m)"

definition overlap_free :: "string \<Rightarrow> string \<Rightarrow> bool" where
  "overlap_free s m = (s \<noteq> [] \<and> m \<noteq> [] \<and> \<not> starts_inside s m \<and> \<not> starts_inside m s)"

text \<open>A string is unbordered when no proper non-empty suffix of it is a prefix of it.\<close>

definition unbordered :: "string \<Rightarrow> bool" where
  "unbordered s = (s \<noteq> [] \<and> \<not> list_ex (\<lambda>t. t \<noteq> [] \<and> t \<noteq> s \<and> prefix t s) (suffixes s))"

section \<open>Properties of \<open>replace\<close>\<close>

lemma replace_absent:
  assumes "old \<noteq> []" and "\<not> sublist old content"
  shows "replace content old new = content"
  using assms
  by (induction content) (simp_all add: sublist_Cons_right)

lemma replace_at_start:
  assumes "old \<noteq> []"
  shows "replace (old @ rest) old new = new @ replace rest old new"
proof -
  from assms obtain x xs where old: "old = x # xs"
    by (cases old) auto
  have "replace (x # (xs @ rest)) old new = new @ replace (drop (length old) (x # (xs @ rest))) old new"
    using old by simp
  then show ?thesis
    using old by simp
qed

lemma replace_leftmost:
  assumes "old \<noteq> []" and "\<not> sublist old (a @ butlast old)"
  shows "replace (a @ old @ b) old new = a @ new @ replace b old new"
  using assms(2)
proof (induction a)
  case Nil
  show ?case
    using assms(1) by (simp add: replace_at_start)
next
  case (Cons c a)
  have no_tail: "\<not> sublist old (a @ butlast old)"
    using Cons.prems by (simp add: sublist_Cons_right)
  have "\<not> prefix old ((c # a) @ old @ b)"
  proof
    assume p: "prefix old ((c # a) @ old @ b)"
    have "(c # a) @ old @ b = ((c # a) @ butlast old) @ ([last old] @ b)"
      using assms(1) by simp
    then have q: "prefix ((c # a) @ butlast old) ((c # a) @ old @ b)"
      by (metis prefixI)
    have "length old \<le> length ((c # a) @ butlast old)"
      by simp
    with p q have "prefix old ((c # a) @ butlast old)"
      by (rule prefix_length_prefix)
    then have "sublist old ((c # a) @ butlast old)"
      by (auto simp: prefix_def)
    with Cons.prems show False
      by simp
  qed
  then have "replace ((c # a) @ old @ b) old new = c # replace (a @ old @ b) old new"
    using assms(1) by simp
  with Cons.IH [OF no_tail] show ?case
    by simp
qed

lemma leftmost_split:
  assumes "old \<noteq> []" and "sublist old content"
  shows "\<exists>a b. content = a @ old @ b \<and> \<not> sublist old (a @ butlast old)"
  using assms(2)
proof (induction content)
  case Nil
  with assms(1) show ?case
    by simp
next
  case (Cons x xs)
  show ?case
  proof (cases "prefix old (x # xs)")
    case True
    then obtain b where "x # xs = [] @ old @ b"
      by (auto simp: prefix_def)
    moreover have "\<not> sublist old ([] @ butlast old)"
    proof
      assume "sublist old ([] @ butlast old)"
      then obtain ps ss where "butlast old = ps @ old @ ss"
        by (auto simp: sublist_def)
      then have "length (butlast old) = length ps + length old + length ss"
        by simp
      then have "length old \<le> length (butlast old)"
        by simp
      with assms(1) show False
        by (cases old rule: rev_cases) simp_all
    qed
    ultimately show ?thesis
      by blast
  next
    case False
    with Cons.prems have "sublist old xs"
      by (simp add: sublist_Cons_right)
    with Cons.IH obtain a b where split: "xs = a @ old @ b"
      and left: "\<not> sublist old (a @ butlast old)"
      by blast
    have "\<not> prefix old ((x # a) @ butlast old)"
    proof
      assume "prefix old ((x # a) @ butlast old)"
      then have "prefix old (((x # a) @ butlast old) @ ([last old] @ b))"
        by (rule prefix_prefix)
      moreover have "((x # a) @ butlast old) @ ([last old] @ b) = x # xs"
        using assms(1) split by simp
      ultimately show False
        using False by simp
    qed
    with left have "\<not> sublist old ((x # a) @ butlast old)"
      by (simp add: sublist_Cons_right)
    with split show ?thesis
      by (metis append_Cons)
  qed
qed

subsection \<open>Replacement around a block that the pattern cannot overlap\<close>

text \<open>
  When the pattern \<open>s\<close> and a block \<open>m\<close> are overlap free, the scan for \<open>s\<close> in \<open>P @ m @ Q\<close>
  treats \<open>P\<close> and \<open>Q\<close> on their own and copies \<open>m\<close>. The same holds around an occurrence
  of an unbordered pattern itself, which is replaced.
\<close>

lemma not_starts_insideD:
  assumes "\<not> starts_inside s m" and "suffix t m" and "t \<noteq> []"
  shows "\<not> prefix s t" and "\<not> prefix t s"
  using assms by (auto simp: starts_inside_def list_ex_iff)

lemma prefix_append_cases:
  assumes "prefix s (t @ Q)"
  shows "prefix s t \<or> prefix t s"
  using assms by (auto simp: prefix_append)

lemma no_start_inside:
  assumes "overlap_free s m" and "suffix t m" and "t \<noteq> []"
  shows "\<not> prefix s (t @ Q)"
proof
  assume "prefix s (t @ Q)"
  then have "prefix s t \<or> prefix t s"
    by (rule prefix_append_cases)
  moreover have "\<not> starts_inside s m"
    using assms(1) by (simp add: overlap_free_def)
  ultimately show False
    using not_starts_insideD [OF _ assms(2,3)] by blast
qed

lemma no_reach_into:
  assumes "overlap_free s m" and "prefix s (P @ m @ Q)"
  shows "prefix s P"
proof -
  from assms(2) consider "prefix s P" | us where "s = P @ us" and "prefix us (m @ Q)"
    by (auto simp: prefix_append)
  then show ?thesis
  proof cases
    case 1
    then show ?thesis .
  next
    case 2
    show ?thesis
    proof (cases "us = []")
      case True
      with 2 show ?thesis
        by simp
    next
      case False
      have "suffix us s"
        using 2 by (simp add: suffix_def)
      moreover have "\<not> starts_inside m s"
        using assms(1) by (simp add: overlap_free_def)
      ultimately have "\<not> prefix m us" and "\<not> prefix us m"
        using False not_starts_insideD by blast+
      with prefix_append_cases [OF 2(2)] show ?thesis
        by blast
    qed
  qed
qed

lemma overlap_free_nonempty:
  assumes "overlap_free s m"
  shows "s \<noteq> []" and "m \<noteq> []"
  using assms by (simp_all add: overlap_free_def)

lemma replace_skip_block:
  assumes "overlap_free s m" and "suffix t m"
  shows "replace (t @ Q) s r = t @ replace Q s r"
  using assms(2)
proof (induction t)
  case Nil
  show ?case
    by simp
next
  case (Cons c t)
  have "suffix t m"
    using Cons.prems by (rule suffix_ConsD)
  moreover have "\<not> prefix s ((c # t) @ Q)"
    using assms(1) Cons.prems by (rule no_start_inside) simp
  ultimately show ?case
    using Cons.IH overlap_free_nonempty(1) [OF assms(1)] by simp
qed

lemma replace_around_block:
  assumes "overlap_free s m"
  shows "replace (P @ m @ Q) s r = replace P s r @ m @ replace Q s r"
proof (induction "length P" arbitrary: P rule: less_induct)
  case less
  note ne = overlap_free_nonempty(1) [OF assms]
  show ?case
  proof (cases "prefix s P")
    case True
    then obtain P' where P: "P = s @ P'"
      by (auto simp: prefix_def)
    with ne have "length P' < length P"
      by simp
    then have "replace (P' @ m @ Q) s r = replace P' s r @ m @ replace Q s r"
      by (rule less.hyps)
    moreover have "replace (s @ (P' @ m @ Q)) s r = r @ replace (P' @ m @ Q) s r"
      using ne by (rule replace_at_start)
    moreover have "replace (s @ P') s r = r @ replace P' s r"
      using ne by (rule replace_at_start)
    ultimately show ?thesis
      using P by simp
  next
    case False
    show ?thesis
    proof (cases P)
      case Nil
      then show ?thesis
        using ne replace_skip_block [OF assms suffix_order.order_refl] by simp
    next
      case (Cons c cs)
      have "\<not> prefix s (P @ m @ Q)"
        using False no_reach_into [OF assms] by blast
      then have "replace (P @ m @ Q) s r = c # replace (cs @ m @ Q) s r"
        using ne Cons by simp
      moreover have "replace P s r = c # replace cs s r"
        using ne Cons False by simp
      moreover have "replace (cs @ m @ Q) s r = replace cs s r @ m @ replace Q s r"
        using Cons by (intro less.hyps) simp
      ultimately show ?thesis
        by simp
    qed
  qed
qed

lemma unbordered_nonempty:
  assumes "unbordered s"
  shows "s \<noteq> []"
  using assms by (simp add: unbordered_def)

lemma unbordered_no_reach:
  assumes "unbordered s" and "prefix s (P @ s @ Q)" and "P \<noteq> []"
  shows "prefix s P"
proof -
  from assms(2) have "prefix s P \<or> (\<exists>us. s = P @ us \<and> prefix us (s @ Q))"
    by (simp only: prefix_append)
  then consider "prefix s P" | us where "s = P @ us" and "prefix us (s @ Q)"
    by blast
  then show ?thesis
  proof cases
    case 1
    then show ?thesis .
  next
    case 2
    show ?thesis
    proof (cases "us = []")
      case True
      with 2 show ?thesis
        by simp
    next
      case False
      have "suffix us s" and "us \<noteq> s"
        using 2 assms(3) by (simp_all add: suffix_def)
      moreover have "prefix us s"
      proof (rule prefix_length_prefix)
        show "prefix us (s @ Q)"
          by (rule 2(2))
        show "prefix s (s @ Q)"
          by simp
        show "length us \<le> length s"
          using 2(1) by simp
      qed
      ultimately show ?thesis
        using assms(1) False by (auto simp: unbordered_def list_ex_iff)
    qed
  qed
qed

lemma replace_around_occurrence:
  assumes "unbordered s"
  shows "replace (P @ s @ Q) s r = replace P s r @ r @ replace Q s r"
proof (induction "length P" arbitrary: P rule: less_induct)
  case less
  note ne = unbordered_nonempty [OF assms]
  show ?case
  proof (cases "prefix s P")
    case True
    then obtain P' where P: "P = s @ P'"
      by (auto simp: prefix_def)
    with ne have "length P' < length P"
      by simp
    then have "replace (P' @ s @ Q) s r = replace P' s r @ r @ replace Q s r"
      by (rule less.hyps)
    moreover have "replace (s @ (P' @ s @ Q)) s r = r @ replace (P' @ s @ Q) s r"
      using ne by (rule replace_at_start)
    moreover have "replace (s @ P') s r = r @ replace P' s r"
      using ne by (rule replace_at_start)
    ultimately show ?thesis
      using P by simp
  next
    case False
    show ?thesis
    proof (cases P)
      case Nil
      then show ?thesis
        using ne by (simp add: replace_at_start)
    next
      case (Cons c cs)
      have "\<not> prefix s (P @ s @ Q)"
        using False unbordered_no_reach [OF assms] Cons by blast
      then have "replace (P @ s @ Q) s r = c # replace (cs @ s @ Q) s r"
        using ne Cons by simp
      moreover have "replace P s r = c # replace cs s r"
        using ne Cons False by simp
      moreover have "replace (cs @ s @ Q) s r = replace cs s r @ r @ replace Q s r"
        using Cons by (intro less.hyps) simp
      ultimately show ?thesis
        by simp
    qed
  qed
qed

subsection \<open>Counting occurrences\<close>

text \<open>
  Occurrences are counted position by position. A block that the pattern cannot overlap
  contributes none, a pattern that occurs once is replaced in place, and a replacement
  that the pattern cannot overlap never brings the pattern back.
\<close>

lemma occurrences_Nil:
  "occurrences s [] = (if s = [] then 1 else 0)"
  by (simp add: occurrences_def)

lemma occurrences_Cons:
  "occurrences s (x # xs) = occurrences s xs + (if prefix s (x # xs) then 1 else 0)"
  by (simp add: occurrences_def)

lemma occurrences_zero_iff:
  "occurrences s X = 0 \<longleftrightarrow> \<not> sublist s X"
  by (induction X) (simp_all add: occurrences_Nil occurrences_Cons sublist_Cons_right)

lemma occurrences_skip_block:
  assumes "overlap_free s m" and "suffix t m"
  shows "occurrences s (t @ Q) = occurrences s Q"
  using assms(2)
proof (induction t)
  case Nil
  show ?case
    by simp
next
  case (Cons c t)
  have "suffix t m"
    using Cons.prems by (rule suffix_ConsD)
  moreover have "\<not> prefix s ((c # t) @ Q)"
    using assms(1) Cons.prems by (rule no_start_inside) simp
  ultimately show ?case
    using Cons.IH by (simp add: occurrences_Cons)
qed

lemma occurrences_around_block:
  assumes "overlap_free s m"
  shows "occurrences s (P @ m @ Q) = occurrences s P + occurrences s Q"
proof (induction P)
  case Nil
  show ?case
    using occurrences_skip_block [OF assms suffix_order.order_refl]
      overlap_free_nonempty(1) [OF assms]
    by (simp add: occurrences_Nil)
next
  case (Cons c P)
  have "prefix s ((c # P) @ m @ Q) \<longleftrightarrow> prefix s (c # P)"
    using no_reach_into [OF assms] prefix_prefix by blast
  with Cons.IH show ?case
    by (simp add: occurrences_Cons)
qed

lemma sublist_around_block:
  assumes "overlap_free s m"
  shows "sublist s (P @ m @ Q) \<longleftrightarrow> sublist s P \<or> sublist s Q"
proof -
  have "occurrences s (P @ m @ Q) = 0 \<longleftrightarrow> occurrences s P = 0 \<and> occurrences s Q = 0"
    using occurrences_around_block [OF assms, of P Q] by simp
  then show ?thesis
    unfolding occurrences_zero_iff by blast
qed

lemma absent_preserved:
  assumes "overlap_free s new" and "old \<noteq> []"
  shows "\<not> sublist s (P @ Y) \<Longrightarrow> \<not> sublist s (P @ replace Y old new)"
proof (induction "length Y" arbitrary: P Y rule: less_induct)
  case less
  show ?case
  proof (cases Y)
    case Nil
    with less.prems assms(2) show ?thesis
      by simp
  next
    case (Cons c cs)
    show ?thesis
    proof (cases "prefix old Y")
      case True
      then obtain Y' where Y: "Y = old @ Y'"
        by (auto simp: prefix_def)
      have "\<not> sublist s ([] @ Y')"
      proof
        assume "sublist s ([] @ Y')"
        then have "sublist s ((P @ old) @ Y')"
          by (simp add: sublist_append)
        with less.prems Y show False
          by simp
      qed
      moreover have "length Y' < length Y"
        using Y assms(2) by simp
      ultimately have "\<not> sublist s ([] @ replace Y' old new)"
        by (intro less.hyps)
      moreover have "\<not> sublist s P"
        using less.prems by (simp add: sublist_append)
      ultimately have "\<not> sublist s (P @ new @ replace Y' old new)"
        by (simp add: sublist_around_block [OF assms(1)])
      then show ?thesis
        using Y replace_at_start [OF assms(2)] by simp
    next
      case False
      have "\<not> sublist s ((P @ [c]) @ cs)"
        using less.prems Cons by simp
      moreover have "length cs < length Y"
        using Cons by simp
      ultimately have "\<not> sublist s ((P @ [c]) @ replace cs old new)"
        by (intro less.hyps)
      then show ?thesis
        using Cons False assms(2) by simp
    qed
  qed
qed

lemma pattern_gone_gen:
  assumes "overlap_free s new"
  shows "(\<And>t. suffix t P \<Longrightarrow> t \<noteq> [] \<Longrightarrow> \<not> prefix s (t @ X)) \<Longrightarrow>
    \<not> sublist s (P @ replace X s new)"
proof (induction "length X" arbitrary: P X rule: less_induct)
  case less
  note ne = overlap_free_nonempty(1) [OF assms]
  have noP: "\<not> sublist s P"
  proof
    assume "sublist s P"
    then obtain t where t: "suffix t P" "prefix s t"
      by (auto simp: sublist_altdef')
    with ne have "t \<noteq> []"
      by auto
    with t less.prems [of t] show False
      by simp
  qed
  show ?case
  proof (cases X)
    case Nil
    with noP ne show ?thesis
      by simp
  next
    case (Cons c cs)
    show ?thesis
    proof (cases "prefix s X")
      case True
      then obtain X' where X: "X = s @ X'"
        by (auto simp: prefix_def)
      have "length X' < length X"
        using X ne by simp
      moreover have "\<And>t. suffix t [] \<Longrightarrow> t \<noteq> [] \<Longrightarrow> \<not> prefix s (t @ X')"
        by simp
      ultimately have "\<not> sublist s ([] @ replace X' s new)"
        by (intro less.hyps)
      with noP have "\<not> sublist s (P @ new @ replace X' s new)"
        by (simp add: sublist_around_block [OF assms])
      then show ?thesis
        using X replace_at_start [OF ne] by simp
    next
      case False
      have "\<not> prefix s (t @ cs)" if "suffix t (P @ [c])" and "t \<noteq> []" for t
      proof -
        from that obtain t' where t': "t = t' @ [c]" "suffix t' P"
          by (cases t rule: rev_cases) (auto simp: suffix_def)
        show ?thesis
        proof (cases "t' = []")
          case True
          with t' False Cons show ?thesis
            by simp
        next
          case False
          with less.prems [OF t'(2)] t'(1) Cons show ?thesis
            by simp
        qed
      qed
      moreover have "length cs < length X"
        using Cons by simp
      ultimately have "\<not> sublist s ((P @ [c]) @ replace cs s new)"
        by (intro less.hyps)
      then show ?thesis
        using Cons False ne by simp
    qed
  qed
qed

lemma pattern_gone:
  assumes "overlap_free s new"
  shows "\<not> sublist s (replace X s new)"
  using pattern_gone_gen [OF assms, of "[]" X] by simp

lemma occurrence_split:
  assumes "occurrences s X = 1"
  obtains a b where "X = a @ s @ b"
proof -
  from assms have "sublist s X"
    using occurrences_zero_iff [of s X] by simp
  then show ?thesis
    using that by (auto simp: sublist_def)
qed

lemma replace_single:
  assumes "s \<noteq> []"
  shows "occurrences s (a @ s @ b) = 1 \<Longrightarrow> replace (a @ s @ b) s r = a @ r @ b"
proof (induction a)
  case Nil
  from assms obtain x xs where s: "s = x # xs"
    by (cases s) auto
  from Nil have "occurrences s (x # (xs @ b)) = 1"
    using s by simp
  then have "occurrences s (xs @ b) = 0"
    using s by (simp add: occurrences_Cons)
  then have "\<not> sublist s (xs @ b)"
    by (simp add: occurrences_zero_iff)
  then have "\<not> sublist s b"
    by (simp add: sublist_append)
  with assms have "replace b s r = b"
    by (rule replace_absent)
  with assms show ?case
    by (simp add: replace_at_start)
next
  case (Cons c a)
  have "sublist s (a @ s @ b)"
    by simp
  then have pos: "occurrences s (a @ s @ b) \<noteq> 0"
    by (simp add: occurrences_zero_iff)
  from Cons.prems have sum: "occurrences s (a @ s @ b) +
      (if prefix s (c # a @ s @ b) then 1 else 0) = 1"
    by (simp add: occurrences_Cons)
  from pos sum have one: "occurrences s (a @ s @ b) = 1"
    by (simp split: if_splits)
  from pos sum have "\<not> prefix s (c # a @ s @ b)"
    by (simp split: if_splits)
  then have "replace ((c # a) @ s @ b) s r = c # replace (a @ s @ b) s r"
    using assms by simp
  with Cons.IH [OF one] show ?case
    by simp
qed

lemma one_of_two:
  assumes "n + m = (1::nat)"
  shows "n = 1 \<and> m = 0 \<or> n = 0 \<and> m = 1"
  using assms by arith

lemma one_of_three:
  assumes "n + m + k = (1::nat)"
  shows "n = 1 \<and> m = 0 \<and> k = 0 \<or> n = 0 \<and> m = 1 \<and> k = 0 \<or> n = 0 \<and> m = 0 \<and> k = 1"
  using assms by arith

lemma replace_single_at:
  assumes "s \<noteq> []" and "occurrences s X = 1" and "X = a @ s @ b"
  shows "replace X s r = a @ r @ b"
  using assms replace_single by simp

subsection \<open>When a replacement can make its own pattern again\<close>

text \<open>
  For a pattern \<open>s = d @ r\<close> replaced by \<open>r\<close>, the result contains \<open>s\<close> again only where the
  input had \<open>d @ s\<close>: the scan copies \<open>d\<close> and puts \<open>r\<close> behind it. The lemmas below give the
  conditions on \<open>d\<close> and \<open>r\<close> under which this is the only way.
\<close>

lemma suffix_append_cases:
  assumes "suffix t (P @ r)"
  obtains "suffix t r" | t' where "suffix t' P" and "t = t' @ r" and "t' \<noteq> []"
proof -
  from assms have "suffix t r \<or> (\<exists>t'. t = t' @ r \<and> suffix t' P)"
    by (simp only: suffix_append)
  then show ?thesis
  proof
    assume "suffix t r"
    then show ?thesis
      by (rule that(1))
  next
    assume "\<exists>t'. t = t' @ r \<and> suffix t' P"
    then obtain t' where t': "t = t' @ r" "suffix t' P"
      by blast
    show ?thesis
    proof (cases "t' = []")
      case True
      with t'(1) have "suffix t r"
        by simp
      then show ?thesis
        by (rule that(1))
    next
      case False
      with t' show ?thesis
        by (intro that(2))
    qed
  qed
qed

lemma pattern_not_recreated_gen:
  assumes s: "s = d @ r" and d: "d \<noteq> []"
    and K1: "\<not> starts_inside s r"
    and K2: "\<And>u. suffix u s \<Longrightarrow> u \<noteq> [] \<Longrightarrow> u \<noteq> s \<Longrightarrow> prefix u r \<or> prefix r u \<Longrightarrow> u = r"
    and K3: "overlap_free d r"
  shows "\<not> sublist (d @ s) (P @ X) \<Longrightarrow>
    (\<And>t. suffix t P \<Longrightarrow> t \<noteq> [] \<Longrightarrow> \<not> prefix s (t @ X)) \<Longrightarrow>
    \<not> sublist s (P @ replace X s r)"
proof (induction "length X" arbitrary: P X rule: less_induct)
  case less
  have ne: "s \<noteq> []"
    using s d by simp
  have rne: "r \<noteq> []"
    using K3 by (rule overlap_free_nonempty(2))
  have noP: "\<not> sublist s P"
  proof
    assume "sublist s P"
    then obtain t where t: "suffix t P" "prefix s t"
      by (auto simp: sublist_altdef')
    with ne have "t \<noteq> []"
      by auto
    with t less.prems(2) [of t] show False
      by simp
  qed
  show ?case
  proof (cases X)
    case Nil
    with noP ne show ?thesis
      by simp
  next
    case (Cons c cs)
    show ?thesis
    proof (cases "prefix s X")
      case False
      have "\<not> prefix s (t @ cs)" if "suffix t (P @ [c])" and "t \<noteq> []" for t
      proof -
        from that obtain t' where t': "t = t' @ [c]" "suffix t' P"
          by (cases t rule: rev_cases) (auto simp: suffix_def)
        show ?thesis
        proof (cases "t' = []")
          case True
          with t' False Cons show ?thesis
            by simp
        next
          case False
          with less.prems(2) [OF t'(2)] t'(1) Cons show ?thesis
            by simp
        qed
      qed
      moreover have "length cs < length X"
        using Cons by simp
      moreover have "\<not> sublist (d @ s) ((P @ [c]) @ cs)"
        using less.prems(1) Cons by simp
      ultimately have "\<not> sublist s ((P @ [c]) @ replace cs s r)"
        by (intro less.hyps)
      then show ?thesis
        using Cons False ne by simp
    next
      case True
      then obtain X' where X: "X = s @ X'"
        by (auto simp: prefix_def)
      have len: "length X' < length X"
        using X ne by simp
      have ii: "\<not> prefix s (t @ X')" if t: "suffix t (P @ r)" "t \<noteq> []" for t
      proof
        assume p: "prefix s (t @ X')"
        from t(1) show False
        proof (cases rule: suffix_append_cases)
          case 1
          from p have "prefix s t \<or> prefix t s"
            by (rule prefix_append_cases)
          with not_starts_insideD [OF K1 1 t(2)] show False
            by blast
        next
          case (2 t')
          from p 2(2) have "prefix s (t' @ (r @ X'))"
            by simp
          then have "prefix s t' \<or> (\<exists>u. s = t' @ u \<and> prefix u (r @ X'))"
            by (simp only: prefix_append)
          then show False
          proof
            assume "prefix s t'"
            then have "prefix s (t' @ X)"
              by (rule prefix_prefix)
            with less.prems(2) [OF 2(1) 2(3)] show False
              by simp
          next
            assume "\<exists>u. s = t' @ u \<and> prefix u (r @ X')"
            then obtain u where u: "s = t' @ u" "prefix u (r @ X')"
              by blast
            have uns: "u \<noteq> s"
              using u(1) 2(3) by (metis append_self_conv2)
            have suf: "suffix u s"
              using u(1) by (metis suffixI)
            show False
            proof (cases "u = []")
              case True
              with u(1) have "prefix s (t' @ X)"
                by simp
              with less.prems(2) [OF 2(1) 2(3)] show False
                by simp
            next
              case False
              from u(2) have "prefix u r \<or> prefix r u"
                by (rule prefix_append_cases)
              with K2 [OF suf False uns] have "u = r"
                by simp
              with u(1) s have "t' = d"
                by simp
              with 2(1) obtain P0 where "P = P0 @ d"
                by (auto simp: suffix_def)
              then have "P @ X = P0 @ (d @ s) @ X'"
                using X by simp
              then have "sublist (d @ s) (P @ X)"
                by (metis sublist_appendI)
              with less.prems(1) show False
                by simp
            qed
          qed
        qed
      qed
      have i: "\<not> sublist (d @ s) ((P @ r) @ X')"
      proof
        assume "sublist (d @ s) ((P @ r) @ X')"
        then obtain w where w: "suffix w ((P @ r) @ X')" "prefix (d @ s) w"
          by (auto simp: sublist_altdef')
        from w(1) show False
        proof (cases rule: suffix_append_cases)
          case 1
          with w(2) have "sublist (d @ s) X'"
            by (auto simp: sublist_altdef')
          then have "sublist (d @ s) ((P @ s) @ X')"
            by (simp only: sublist_append) simp
          with less.prems(1) X show False
            by simp
        next
          case (2 t)
          show False
          proof (cases "length d < length t")
            case True
            have "prefix d (t @ X')"
              using w(2) 2(2) by (metis append_prefixD)
            moreover have "prefix t (t @ X')"
              by simp
            ultimately have "prefix d t"
              using True by (metis prefix_length_prefix less_imp_le)
            then obtain t2 where t2: "t = d @ t2"
              by (auto simp: prefix_def)
            with True have "t2 \<noteq> []"
              by auto
            moreover have "suffix t2 (P @ r)"
              using 2(1) t2 by (metis suffix_appendD)
            moreover have "prefix s (t2 @ X')"
              using w(2) 2(2) t2 by simp
            ultimately show False
              using ii by blast
          next
            case False
            have "prefix t (d @ s)"
            proof (rule prefix_length_prefix)
              show "prefix t (t @ X')"
                by simp
              show "prefix (d @ s) (t @ X')"
                using w(2) 2(2) by simp
              show "length t \<le> length (d @ s)"
                using False by simp
            qed
            then have td: "prefix t d"
              using False by (auto simp: prefix_append)
            from 2(1) show False
            proof (cases rule: suffix_append_cases)
              case 1
              have "\<not> starts_inside d r"
                using K3 by (simp add: overlap_free_def)
              from not_starts_insideD(2) [OF this 1 2(3)] td show False
                by simp
            next
              case (2 t')
              with td obtain z where "d = t' @ r @ z"
                by (auto simp: prefix_def)
              then have "suffix (r @ z) d"
                by (metis suffixI)
              moreover have "r @ z \<noteq> []"
                using rne by simp
              moreover have "\<not> starts_inside r d"
                using K3 by (simp add: overlap_free_def)
              ultimately have "\<not> prefix r (r @ z)"
                using not_starts_insideD(1) by blast
              then show False
                by simp
            qed
          qed
        qed
      qed
      from i ii len have "\<not> sublist s ((P @ r) @ replace X' s r)"
        by (intro less.hyps)
      then show ?thesis
        using X replace_at_start [OF ne] by simp
    qed
  qed
qed

lemma replace_before_tail:
  assumes ne: "s \<noteq> []"
    and short: "length d < length s"
    and K: "\<And>u. suffix u s \<Longrightarrow> u \<noteq> [] \<Longrightarrow> \<not> prefix u d"
  shows "replace (P @ d) s r = replace P s r @ d"
proof (induction "length P" arbitrary: P rule: less_induct)
  case less
  have tail: "replace t s r = t" if "suffix t d" for t
  proof -
    have "\<not> sublist s t"
    proof
      assume "sublist s t"
      then have "length s \<le> length t"
        by (auto simp: sublist_def)
      moreover have "length t \<le> length d"
        using that by (rule suffix_length_le)
      ultimately show False
        using short by simp
    qed
    with ne show ?thesis
      by (rule replace_absent)
  qed
  show ?case
  proof (cases "prefix s P")
    case True
    then obtain P' where P: "P = s @ P'"
      by (auto simp: prefix_def)
    with ne have "length P' < length P"
      by simp
    then have "replace (P' @ d) s r = replace P' s r @ d"
      by (rule less.hyps)
    moreover have "replace (s @ (P' @ d)) s r = r @ replace (P' @ d) s r"
      using ne by (rule replace_at_start)
    moreover have "replace (s @ P') s r = r @ replace P' s r"
      using ne by (rule replace_at_start)
    ultimately show ?thesis
      using P by simp
  next
    case False
    show ?thesis
    proof (cases P)
      case Nil
      then show ?thesis
        using ne tail [of d] by simp
    next
      case (Cons c cs)
      have "\<not> prefix s (P @ d)"
      proof
        assume "prefix s (P @ d)"
        then have "prefix s P \<or> (\<exists>u. s = P @ u \<and> prefix u d)"
          by (simp only: prefix_append)
        with False obtain u where u: "s = P @ u" "prefix u d"
          by blast
        have "suffix u s"
          using u(1) by (metis suffixI)
        moreover have "u \<noteq> []"
          using u(1) False by auto
        ultimately show False
          using K u(2) by blast
      qed
      then have "replace (P @ d) s r = c # replace (cs @ d) s r"
        using ne Cons by simp
      moreover have "replace P s r = c # replace cs s r"
        using ne Cons False by simp
      moreover have "replace (cs @ d) s r = replace cs s r @ d"
        using Cons by (intro less.hyps) simp
      ultimately show ?thesis
        by simp
    qed
  qed
qed

lemma length_replace_le:
  assumes "s \<noteq> []" and "length r \<le> length s"
  shows "length (replace X s r) \<le> length X"
proof (induction "length X" arbitrary: X rule: less_induct)
  case less
  show ?case
  proof (cases "prefix s X")
    case True
    then obtain X' where X: "X = s @ X'"
      by (auto simp: prefix_def)
    with assms(1) have "length X' < length X"
      by simp
    then have "length (replace X' s r) \<le> length X'"
      by (rule less.hyps)
    then show ?thesis
      using X assms replace_at_start [OF assms(1), of X' r] by simp
  next
    case False
    show ?thesis
    proof (cases X)
      case Nil
      with assms(1) show ?thesis
        by simp
    next
      case (Cons c cs)
      then have "length (replace cs s r) \<le> length cs"
        by (intro less.hyps) simp
      with Cons False assms(1) show ?thesis
        by simp
    qed
  qed
qed

lemma length_replace_less:
  assumes "s \<noteq> []" and "length r < length s"
  shows "sublist s X \<Longrightarrow> length (replace X s r) < length X"
proof (induction X)
  case Nil
  with assms(1) show ?case
    by simp
next
  case (Cons c cs)
  show ?case
  proof (cases "prefix s (c # cs)")
    case True
    then obtain X' where X: "c # cs = s @ X'"
      by (auto simp: prefix_def)
    have "length (replace X' s r) \<le> length X'"
      using assms by (intro length_replace_le) simp_all
    moreover have "replace (s @ X') s r = r @ replace X' s r"
      using assms(1) by (rule replace_at_start)
    ultimately have "length (replace (s @ X') s r) < length (s @ X')"
      using assms(2) by simp
    then show ?thesis
      using X by simp
  next
    case False
    with Cons.prems have "sublist s cs"
      by (simp add: sublist_Cons_right)
    then have "length (replace cs s r) < length cs"
      by (rule Cons.IH)
    with False assms(1) show ?thesis
      by simp
  qed
qed

subsection \<open>The literals of the script\<close>

text \<open>
  The facts about the six literals are decided by evaluation: which of them are overlap
  free, that the first search literal is unbordered, and that it is \<^verbatim>\<open>defer, \<close>
  followed by its own replacement.
\<close>

lemma rules_nonempty:
  "search1 \<noteq> []" "search2 \<noteq> []" "search3 \<noteq> []"
  by (simp_all add: search1_def search2_def search3_def)

lemma transform_chain:
  "transform content =
     replace (replace (replace content search1 replacement1) search2 replacement2)
       search3 replacement3"
  by (simp add: transform_def)

lemma overlap_21: "overlap_free search2 search1"
  by (simp add: overlap_free_def starts_inside_def search1_def search2_def)

lemma overlap_2r1: "overlap_free search2 replacement1"
  by (simp add: overlap_free_def starts_inside_def replacement1_def search2_def)

lemma overlap_31: "overlap_free search3 search1"
  by (simp add: overlap_free_def starts_inside_def search1_def search3_def)

lemma overlap_3r1: "overlap_free search3 replacement1"
  by (simp add: overlap_free_def starts_inside_def replacement1_def search3_def)

lemma overlap_32: "overlap_free search3 search2"
  by (simp add: overlap_free_def starts_inside_def search2_def search3_def)

lemma overlap_3r2: "overlap_free search3 replacement2"
  by (simp add: overlap_free_def starts_inside_def replacement2_def search3_def)

lemma overlap_2r2: "overlap_free search2 replacement2"
  by (simp add: overlap_free_def starts_inside_def replacement2_def search2_def)

lemma overlap_2r3: "overlap_free search2 replacement3"
  by (simp add: overlap_free_def starts_inside_def replacement3_def search2_def)

lemma no_search2_after_pass: "\<not> sublist search2 (transform C)"
proof -
  have "\<not> sublist search2 (replace (replace C search1 replacement1) search2 replacement2)"
    using overlap_2r2 by (rule pattern_gone)
  then have "\<not> sublist search2
      ([] @ replace (replace (replace C search1 replacement1) search2 replacement2)
         search3 replacement3)"
    by (intro absent_preserved [OF overlap_2r3 rules_nonempty(3)]) simp
  then show ?thesis
    by (simp add: transform_chain)
qed

lemma search1_split: "search1 = ''defer, '' @ replacement1"
  by (simp add: search1_def replacement1_def)

lemma search1_not_inside_replacement1: "\<not> starts_inside search1 replacement1"
  by (simp add: starts_inside_def search1_def replacement1_def)

lemma search1_suffix_meets_replacement1:
  assumes "suffix u search1" and "u \<noteq> []" and "u \<noteq> search1"
    and "prefix u replacement1 \<or> prefix replacement1 u"
  shows "u = replacement1"
proof -
  have "list_all (\<lambda>u. u = [] \<or> u = search1 \<or> u = replacement1 \<or>
      (\<not> prefix u replacement1 \<and> \<not> prefix replacement1 u)) (suffixes search1)"
    by (simp add: search1_def replacement1_def)
  with assms show ?thesis
    by (auto simp: list_all_iff)
qed

lemma overlap_defer_replacement1: "overlap_free ''defer, '' replacement1"
  by (simp add: overlap_free_def starts_inside_def replacement1_def)

lemma overlap_1r2: "overlap_free search1 replacement2"
  by (simp add: overlap_free_def starts_inside_def search1_def replacement2_def)

lemma overlap_1r3: "overlap_free search1 replacement3"
  by (simp add: overlap_free_def starts_inside_def search1_def replacement3_def)

lemma unbordered_search1: "unbordered search1"
  by (simp add: unbordered_def search1_def)

lemma search1_suffix_not_in_defer:
  assumes "suffix u search1" and "u \<noteq> []"
  shows "\<not> prefix u ''defer, ''"
proof -
  have "list_all (\<lambda>u. u = [] \<or> \<not> prefix u ''defer, '') (suffixes search1)"
    by (simp add: search1_def)
  with assms show ?thesis
    by (auto simp: list_all_iff)
qed

lemma no_search1_after_pass:
  assumes "\<not> sublist (''defer, '' @ search1) C"
  shows "\<not> sublist search1 (transform C)"
proof -
  have "\<not> sublist search1 ([] @ replace C search1 replacement1)"
  proof (rule pattern_not_recreated_gen [OF search1_split _ search1_not_inside_replacement1
        _ overlap_defer_replacement1])
    show "''defer, '' \<noteq> []"
      by simp
    show "u = replacement1"
      if "suffix u search1" "u \<noteq> []" "u \<noteq> search1"
        "prefix u replacement1 \<or> prefix replacement1 u" for u
      using that by (rule search1_suffix_meets_replacement1)
    show "\<not> sublist (''defer, '' @ search1) ([] @ C)"
      using assms by simp
    show "\<not> prefix search1 (t @ C)" if "suffix t []" "t \<noteq> []" for t
      using that by simp
  qed
  then have "\<not> sublist search1 ([] @ replace (replace C search1 replacement1) search2 replacement2)"
    by (intro absent_preserved [OF overlap_1r2 rules_nonempty(2)])
  then have "\<not> sublist search1
      ([] @ replace (replace (replace C search1 replacement1) search2 replacement2)
         search3 replacement3)"
    by (intro absent_preserved [OF overlap_1r3 rules_nonempty(3)])
  then show ?thesis
    by (simp add: transform_chain)
qed

lemma search1_after_pass:
  assumes "sublist (''defer, '' @ search1) C"
  shows "sublist search1 (transform C)"
proof -
  from assms obtain P Q where C: "C = (P @ ''defer, '') @ search1 @ Q"
    by (auto simp: sublist_def)
  have "replace C search1 replacement1 =
      replace (P @ ''defer, '') search1 replacement1 @ replacement1 @
        replace Q search1 replacement1"
    unfolding C using unbordered_search1 by (rule replace_around_occurrence)
  also have "replace (P @ ''defer, '') search1 replacement1 =
      replace P search1 replacement1 @ ''defer, ''"
  proof (rule replace_before_tail [OF rules_nonempty(1)])
    show "length ''defer, '' < length search1"
      by (simp add: search1_def)
    show "\<not> prefix u ''defer, ''" if "suffix u search1" "u \<noteq> []" for u
      using that by (rule search1_suffix_not_in_defer)
  qed
  finally have "replace C search1 replacement1 =
      replace P search1 replacement1 @ search1 @ replace Q search1 replacement1"
    by (simp add: search1_split)
  then have "transform C =
      replace (replace (replace P search1 replacement1) search2 replacement2)
          search3 replacement3 @ search1 @
      replace (replace (replace Q search1 replacement1) search2 replacement2)
          search3 replacement3"
    by (simp add: transform_chain replace_around_block [OF overlap_21]
        replace_around_block [OF overlap_31])
  then show ?thesis
    by (metis sublist_appendI)
qed

lemma first_literal_rewritten_again:
  assumes "sublist search1 Z"
  shows "replace (replace Z search1 replacement1) search2 replacement2 \<noteq> Z"
proof -
  have "length (replace Z search1 replacement1) < length Z"
    using rules_nonempty(1) _ assms
    by (rule length_replace_less) (simp add: search1_def replacement1_def)
  moreover have "length (replace (replace Z search1 replacement1) search2 replacement2) \<le>
      length (replace Z search1 replacement1)"
    using rules_nonempty(2)
    by (rule length_replace_le) (simp add: search2_def replacement2_def)
  ultimately show ?thesis
    by auto
qed

lemma permutation_of_rulesI:
  assumes "{x, y, z} = set rules"
    and "C = a @ fst x @ b @ fst y @ c @ fst z @ d"
    and "T = a @ snd x @ b @ snd y @ c @ snd z @ d"
  shows "\<exists>x y z a b c d. {x, y, z} = set rules \<and>
    C = a @ fst x @ b @ fst y @ c @ fst z @ d \<and>
    T = a @ snd x @ b @ snd y @ c @ snd z @ d"
  using assms by blast

section \<open>Properties of the run\<close>

lemma main_missing:
  assumes "files w target_path = None"
  shows "main w = (Some FileNotFoundError, w)"
  using assms by (simp add: main_def read_text_def)

lemma main_unreadable:
  assumes "files w target_path = Some f" and "\<not> readable f"
  shows "main w = (Some PermissionError, w)"
  using assms by (simp add: main_def read_text_def)

lemma main_unwritable:
  assumes "files w target_path = Some f" and "readable f" and "\<not> writable f"
  shows "main w =
    (Some PermissionError,
     w\<lparr>trace := trace w @
        [Open_file target_path Read_mode, Read_file target_path, Close_file target_path]\<rparr>)"
  using assms by (simp add: main_def read_text_def write_text_def)

lemma main_success:
  assumes "files w target_path = Some f" and "readable f" and "writable f"
  shows "main w =
    (None,
     w\<lparr>files := (files w)(target_path \<mapsto> f\<lparr>contents := transform (contents f)\<rparr>),
       trace := trace w @
        [Open_file target_path Read_mode, Read_file target_path, Close_file target_path,
         Open_file target_path Write_mode, Write_file target_path (transform (contents f)),
         Close_file target_path]\<rparr>)"
  using assms by (simp add: main_def read_text_def write_text_def)

section \<open>The claims\<close>

text \<open>
  C5. If the target path does not exist, the run fails in the read step with
  \<open>FileNotFoundError\<close>, before any write is attempted: the world after the run is the world
  before it, so the target is neither created nor modified and no operation was performed.
\<close>

theorem missing_file_fails_before_write:
  assumes "files w target_path = None"
  shows "main w = (Some FileNotFoundError, w)"
  using assms by (simp add: main_def read_text_def)

theorem missing_file_fails_before_write_witness:
  "files \<lparr>files = Map.empty, trace = []\<rparr> target_path = None \<and>
   main \<lparr>files = Map.empty, trace = []\<rparr> =
     (Some FileNotFoundError, \<lparr>files = Map.empty, trace = []\<rparr>)"
  using missing_file_fails_before_write [of "\<lparr>files = Map.empty, trace = []\<rparr>"]
  by simp

text \<open>
  C2. The transformation applies rule 1, rule 2 and rule 3 in this order, each to the
  content the rule before it produced. For each rule \<open>(s, r)\<close> and every content \<open>X\<close>: when
  \<open>s\<close> does not occur in \<open>X\<close> the step returns \<open>X\<close> unchanged; when it occurs, \<open>X\<close> splits at
  the leftmost occurrence as \<open>a @ s @ b\<close>, and the step returns \<open>a\<close>, then \<open>r\<close>, then the result
  of the same step on \<open>b\<close>, the text behind that occurrence. So every occurrence found by
  the scan from the left is replaced, and occurrences do not overlap. The step is a total
  function: it raises nothing.
\<close>

theorem rules_replace_every_occurrence_in_order:
  assumes "(s, r) \<in> set rules"
  shows "transform C = fold (\<lambda>(s, r) content. replace content s r) rules C \<and>
    (\<not> sublist s X \<longrightarrow> replace X s r = X) \<and>
    (sublist s X \<longrightarrow>
      (\<exists>a b. X = a @ s @ b \<and> \<not> sublist s (a @ butlast s) \<and>
         replace X s r = a @ r @ replace b s r))"
proof -
  from assms have ne: "s \<noteq> []"
    using rules_nonempty by (auto simp: rules_def)
  have "transform C = fold (\<lambda>(s, r) content. replace content s r) rules C"
    by (simp add: transform_def rules_def)
  moreover have "\<not> sublist s X \<longrightarrow> replace X s r = X"
    using ne by (simp add: replace_absent)
  moreover have "sublist s X \<longrightarrow>
      (\<exists>a b. X = a @ s @ b \<and> \<not> sublist s (a @ butlast s) \<and>
         replace X s r = a @ r @ replace b s r)"
  proof
    assume "sublist s X"
    with ne obtain a b where "X = a @ s @ b" and "\<not> sublist s (a @ butlast s)"
      using leftmost_split by blast
    with ne show "\<exists>a b. X = a @ s @ b \<and> \<not> sublist s (a @ butlast s) \<and>
         replace X s r = a @ r @ replace b s r"
      using replace_leftmost by blast
  qed
  ultimately show ?thesis
    by blast
qed

theorem rules_replace_every_occurrence_in_order_witness:
  "(search2, replacement2) \<in> set rules \<and>
   transform ''x = defer({'' =
     fold (\<lambda>(s, r) content. replace content s r) rules ''x = defer({'' \<and>
   sublist search2 ''a return defer({ b return defer({ c'' \<and>
   (\<exists>a b. ''a return defer({ b return defer({ c'' = a @ search2 @ b \<and>
      \<not> sublist search2 (a @ butlast search2) \<and>
      replace ''a return defer({ b return defer({ c'' search2 replacement2 =
        a @ replacement2 @ replace b search2 replacement2)"
proof -
  have r: "(search2, replacement2) \<in> set rules"
    by (simp add: rules_def)
  have s: "sublist search2 ''a return defer({ b return defer({ c''"
    by (simp add: search2_def sublist_Cons_right)
  from rules_replace_every_occurrence_in_order
    [OF r, of "''x = defer({''" "''a return defer({ b return defer({ c''"] r s
  show ?thesis
    by blast
qed

text \<open>
  C3. For a content that contains none of the three search literals the transformation
  returns the content as it is; the run on a readable and writable target file holding
  such a content succeeds, leaves every file as it was, and still opens the target for
  writing and writes that content to it.
\<close>

theorem no_literal_identity_but_rewritten:
  assumes "\<not> sublist search1 C" and "\<not> sublist search2 C" and "\<not> sublist search3 C"
    and "files w target_path = Some f" and "contents f = C"
    and "readable f" and "writable f"
  shows "transform C = C \<and>
    main w =
      (None,
       w\<lparr>trace := trace w @
          [Open_file target_path Read_mode, Read_file target_path, Close_file target_path,
           Open_file target_path Write_mode, Write_file target_path C,
           Close_file target_path]\<rparr>)"
proof -
  have id: "transform C = C"
    using assms(1-3) rules_nonempty by (simp add: transform_chain replace_absent)
  have "f\<lparr>contents := C\<rparr> = f"
    using assms(5) by simp
  then have "(files w)(target_path \<mapsto> f\<lparr>contents := C\<rparr>) = files w"
    using assms(4) by (simp add: map_upd_triv)
  then show ?thesis
    using id main_success [OF assms(4,6,7)] assms(5) by simp
qed

theorem no_literal_identity_but_rewritten_witness:
  "transform ''const x = 1;'' = ''const x = 1;'' \<and>
   main \<lparr>files = [target_path \<mapsto> \<lparr>contents = ''const x = 1;'', readable = True, writable = True\<rparr>],
         trace = []\<rparr> =
     (None,
      \<lparr>files = [target_path \<mapsto> \<lparr>contents = ''const x = 1;'', readable = True, writable = True\<rparr>],
       trace =
         [Open_file target_path Read_mode, Read_file target_path, Close_file target_path,
          Open_file target_path Write_mode, Write_file target_path ''const x = 1;'',
          Close_file target_path]\<rparr>)"
proof -
  have 1: "\<not> sublist search1 ''const x = 1;''"
    by (simp add: search1_def sublist_Cons_right)
  have 2: "\<not> sublist search2 ''const x = 1;''"
    by (simp add: search2_def sublist_Cons_right)
  have 3: "\<not> sublist search3 ''const x = 1;''"
    by (simp add: search3_def sublist_Cons_right)
  show ?thesis
    using no_literal_identity_but_rewritten [OF 1 2 3,
      of "\<lparr>files = [target_path \<mapsto> \<lparr>contents = ''const x = 1;'', readable = True, writable = True\<rparr>],
           trace = []\<rparr>"
         "\<lparr>contents = ''const x = 1;'', readable = True, writable = True\<rparr>"]
    by simp
qed

text \<open>
  C9. Whatever the outcome of the run, every file at a path other than the fixed target
  path is as it was before, and the operations the run adds to the trace (opening,
  reading, writing, closing) all concern the target path: nothing else is observed or
  produced.
\<close>

theorem only_target_touched:
  assumes "main w = (e, w')"
  shows "(\<forall>p. p \<noteq> target_path \<longrightarrow> files w' p = files w p) \<and>
    (\<exists>evs. trace w' = trace w @ evs \<and> list_all (\<lambda>ev. event_path ev = target_path) evs)"
proof (cases "files w target_path")
  case None
  with assms main_missing [of w] show ?thesis
    by simp
next
  case (Some f)
  show ?thesis
  proof (cases "readable f")
    case False
    with Some assms main_unreadable [of w f] show ?thesis
      by simp
  next
    case True
    note r = this
    show ?thesis
    proof (cases "writable f")
      case False
      with Some r assms main_unwritable [of w f] show ?thesis
        by auto
    next
      case True
      with Some r assms main_success [of w f] show ?thesis
        by auto
    qed
  qed
qed

theorem only_target_touched_witness:
  "main \<lparr>files = [target_path \<mapsto> \<lparr>contents = ''  return defer({'', readable = True, writable = True\<rparr>,
                  ''other.txt'' \<mapsto> \<lparr>contents = ''return defer({'', readable = True, writable = True\<rparr>],
         trace = []\<rparr> =
     (None,
      \<lparr>files = [target_path \<mapsto> \<lparr>contents = ''  return {'', readable = True, writable = True\<rparr>,
                ''other.txt'' \<mapsto> \<lparr>contents = ''return defer({'', readable = True, writable = True\<rparr>],
       trace =
         [Open_file target_path Read_mode, Read_file target_path, Close_file target_path,
          Open_file target_path Write_mode, Write_file target_path ''  return {'',
          Close_file target_path]\<rparr>) \<and>
   [target_path \<mapsto> \<lparr>contents = ''  return {'', readable = True, writable = True\<rparr>,
    ''other.txt'' \<mapsto> \<lparr>contents = ''return defer({'', readable = True, writable = True\<rparr>]
      ''other.txt'' =
   [target_path \<mapsto> \<lparr>contents = ''  return defer({'', readable = True, writable = True\<rparr>,
    ''other.txt'' \<mapsto> \<lparr>contents = ''return defer({'', readable = True, writable = True\<rparr>]
      ''other.txt''"
proof -
  have m: "main \<lparr>files = [target_path \<mapsto> \<lparr>contents = ''  return defer({'', readable = True, writable = True\<rparr>,
                  ''other.txt'' \<mapsto> \<lparr>contents = ''return defer({'', readable = True, writable = True\<rparr>],
         trace = []\<rparr> =
     (None,
      \<lparr>files = [target_path \<mapsto> \<lparr>contents = ''  return {'', readable = True, writable = True\<rparr>,
                ''other.txt'' \<mapsto> \<lparr>contents = ''return defer({'', readable = True, writable = True\<rparr>],
       trace =
         [Open_file target_path Read_mode, Read_file target_path, Close_file target_path,
          Open_file target_path Write_mode, Write_file target_path ''  return {'',
          Close_file target_path]\<rparr>)"
    by (simp add: main_def read_text_def write_text_def target_path_def transform_def
        search1_def search2_def search3_def replacement1_def replacement2_def replacement3_def
        fun_upd_twist)
  have "''other.txt'' \<noteq> target_path"
    by (simp add: target_path_def)
  with only_target_touched [OF m] m show ?thesis
    by simp
qed

text \<open>
  C10. The content written is a function of the content read and of nothing else: two
  runs on worlds whose readable and writable target files hold the same content both
  succeed and write the same text, the transform of that content, whatever the other
  files, the permissions of other files and the earlier traces are.
\<close>

theorem written_content_determined_by_read_content:
  assumes "files w1 target_path = Some f1" and "files w2 target_path = Some f2"
    and "readable f1" and "writable f1" and "readable f2" and "writable f2"
    and "contents f1 = C" and "contents f2 = C"
  shows "fst (main w1) = None \<and> fst (main w2) = None \<and>
    map_option contents (files (snd (main w1)) target_path) = Some (transform C) \<and>
    map_option contents (files (snd (main w2)) target_path) = Some (transform C) \<and>
    Write_file target_path (transform C) \<in> set (trace (snd (main w1))) \<and>
    Write_file target_path (transform C) \<in> set (trace (snd (main w2)))"
  using main_success [OF assms(1,3,4)] main_success [OF assms(2,5,6)] assms(7,8)
  by simp

theorem written_content_determined_by_read_content_witness:
  "fst (main \<lparr>files = [target_path \<mapsto> \<lparr>contents = ''return defer({'', readable = True, writable = True\<rparr>],
              trace = []\<rparr>) = None \<and>
   fst (main \<lparr>files = [''b'' \<mapsto> \<lparr>contents = ''x'', readable = False, writable = True\<rparr>,
                       target_path \<mapsto> \<lparr>contents = ''return defer({'', readable = True, writable = True\<rparr>],
              trace = [Read_file ''b'']\<rparr>) = None \<and>
   map_option contents
     (files (snd (main \<lparr>files = [target_path \<mapsto> \<lparr>contents = ''return defer({'', readable = True, writable = True\<rparr>],
              trace = []\<rparr>)) target_path) = Some ''return {'' \<and>
   map_option contents
     (files (snd (main \<lparr>files = [''b'' \<mapsto> \<lparr>contents = ''x'', readable = False, writable = True\<rparr>,
                       target_path \<mapsto> \<lparr>contents = ''return defer({'', readable = True, writable = True\<rparr>],
              trace = [Read_file ''b'']\<rparr>)) target_path) = Some ''return {''"
proof -
  have t: "transform ''return defer({'' = ''return {''"
    by (simp add: transform_def search1_def search2_def search3_def
        replacement1_def replacement2_def replacement3_def)
  from written_content_determined_by_read_content
    [of "\<lparr>files = [target_path \<mapsto> \<lparr>contents = ''return defer({'', readable = True, writable = True\<rparr>],
              trace = []\<rparr>"
        "\<lparr>contents = ''return defer({'', readable = True, writable = True\<rparr>"
        "\<lparr>files = [''b'' \<mapsto> \<lparr>contents = ''x'', readable = False, writable = True\<rparr>,
                       target_path \<mapsto> \<lparr>contents = ''return defer({'', readable = True, writable = True\<rparr>],
              trace = [Read_file ''b'']\<rparr>"
        "\<lparr>contents = ''return defer({'', readable = True, writable = True\<rparr>"
        "''return defer({''"] t
  show ?thesis
    by simp
qed

text \<open>
  C6. In a content that contains the line \<^verbatim>\<open>import { defer, Await } from "react-router";\<close>
  the transformation turns that line into \<^verbatim>\<open>import { Await } from "react-router";\<close>;
  the text before it and the text after it are transformed on their own.
\<close>

theorem import_line_rewritten:
  "transform (a @ ''import { defer, Await } from \"react-router\";'' @ b) =
     transform a @ ''import { Await } from \"react-router\";'' @ transform b"
proof -
  have o1: "overlap_free search1 ''import { ''"
    by (simp add: overlap_free_def starts_inside_def search1_def)
  have o2: "overlap_free search2 ''import { Await } from \"react-router\";''"
    by (simp add: overlap_free_def starts_inside_def search2_def)
  have o3: "overlap_free search3 ''import { Await } from \"react-router\";''"
    by (simp add: overlap_free_def starts_inside_def search3_def)
  have l: "''import { defer, Await } from \"react-router\";'' = ''import { '' @ search1"
    by (simp add: search1_def)
  have l': "''import { '' @ replacement1 = ''import { Await } from \"react-router\";''"
    by (simp add: replacement1_def)
  have "replace (a @ ''import { '' @ (search1 @ b)) search1 replacement1 =
      replace a search1 replacement1 @ ''import { '' @ replace (search1 @ b) search1 replacement1"
    using o1 by (rule replace_around_block)
  also have "replace (search1 @ b) search1 replacement1 =
      replacement1 @ replace b search1 replacement1"
    using rules_nonempty(1) by (rule replace_at_start)
  finally have 1: "replace (a @ ''import { defer, Await } from \"react-router\";'' @ b)
        search1 replacement1 =
      replace a search1 replacement1 @ ''import { Await } from \"react-router\";'' @
        replace b search1 replacement1"
    unfolding l using l' by simp
  show ?thesis
    unfolding transform_chain 1 replace_around_block [OF o2] replace_around_block [OF o3] ..
qed

text \<open>
  C7. In a content that contains the line \<^verbatim>\<open>  return defer({\<close> the transformation
  turns that line into \<^verbatim>\<open>  return {\<close>; the text before it and the text after it are
  transformed on their own.
\<close>

theorem return_line_rewritten:
  "transform (a @ ''  return defer({'' @ b) = transform a @ ''  return {'' @ transform b"
proof -
  have o1: "overlap_free search1 ''  return defer({''"
    by (simp add: overlap_free_def starts_inside_def search1_def)
  have o2: "overlap_free search2 ''  ''"
    by (simp add: overlap_free_def starts_inside_def search2_def)
  have o3: "overlap_free search3 ''  return {''"
    by (simp add: overlap_free_def starts_inside_def search3_def)
  have l: "''  return defer({'' = ''  '' @ search2"
    by (simp add: search2_def)
  have l': "''  '' @ replacement2 = ''  return {''"
    by (simp add: replacement2_def)
  have "replace (x @ ''  '' @ (search2 @ y)) search2 replacement2 =
      replace x search2 replacement2 @ ''  '' @ replace (search2 @ y) search2 replacement2"
    for x y
    using o2 by (rule replace_around_block)
  moreover have "replace (search2 @ y) search2 replacement2 =
      replacement2 @ replace y search2 replacement2" for y
    using rules_nonempty(2) by (rule replace_at_start)
  ultimately have 2: "replace (x @ ''  return defer({'' @ y) search2 replacement2 =
      replace x search2 replacement2 @ ''  return {'' @ replace y search2 replacement2"
    for x y
    unfolding l using l' by simp
  show ?thesis
    unfolding transform_chain replace_around_block [OF o1] 2 replace_around_block [OF o3] ..
qed

text \<open>
  C8. In a content that contains the character sequence \<^verbatim>\<open>  });\<close>, newline,
  \<^verbatim>\<open>};\<close> the transformation rewrites that sequence to \<^verbatim>\<open>  };\<close>, newline,
  \<^verbatim>\<open>};\<close>; the text before it and the text after it are transformed on their own.
\<close>

theorem closing_sequence_rewritten:
  "transform (a @ ''  });\<newline>};'' @ b) = transform a @ ''  };\<newline>};'' @ transform b"
proof -
  have o1: "overlap_free search1 search3"
    by (simp add: overlap_free_def starts_inside_def search1_def search3_def)
  have o2: "overlap_free search2 search3"
    by (simp add: overlap_free_def starts_inside_def search2_def search3_def)
  have u3: "unbordered search3"
    by (simp add: unbordered_def search3_def)
  have "transform (a @ search3 @ b) = transform a @ replacement3 @ transform b"
    unfolding transform_chain replace_around_block [OF o1] replace_around_block [OF o2]
      replace_around_occurrence [OF u3] ..
  then show ?thesis
    by (simp add: search3_def replacement3_def)
qed

text \<open>
  C1. For a content in which each of the three search literals starts at exactly one
  position, the content splits as \<open>a @ s @ b @ s' @ c @ s'' @ d\<close>, where \<open>s\<close>, \<open>s'\<close>, \<open>s''\<close> are
  the three search literals in the order in which they stand in the content, and the
  transformation returns \<open>a @ r @ b @ r' @ c @ r'' @ d\<close> with the replacement of each literal
  in its place: the four pieces of text around the literals are unchanged.
\<close>

theorem each_literal_once_replaced:
  assumes o1: "occurrences search1 C = 1"
    and o2: "occurrences search2 C = 1"
    and o3: "occurrences search3 C = 1"
  shows "\<exists>x y z a b c d. {x, y, z} = set rules \<and>
    C = a @ fst x @ b @ fst y @ c @ fst z @ d \<and>
    transform C = a @ snd x @ b @ snd y @ c @ snd z @ d"
proof -
  define C1 where "C1 = replace C search1 replacement1"
  define C2 where "C2 = replace C1 search2 replacement2"
  have T: "transform C = replace C2 search3 replacement3"
    by (simp add: transform_chain C1_def C2_def)
  from o1 obtain a b where C: "C = a @ search1 @ b"
    by (rule occurrence_split)
  have C1: "C1 = a @ replacement1 @ b"
    unfolding C1_def using rules_nonempty(1) o1 C by (rule replace_single_at)
  have n2: "occurrences search2 a + occurrences search2 b = 1"
    using o2 unfolding C by (simp add: occurrences_around_block [OF overlap_21])
  have n3: "occurrences search3 a + occurrences search3 b = 1"
    using o3 unfolding C by (simp add: occurrences_around_block [OF overlap_31])
  have o2': "occurrences search2 C1 = 1"
    unfolding C1 using n2 by (simp add: occurrences_around_block [OF overlap_2r1])
  from one_of_two [OF n2] show ?thesis
  proof (elim disjE conjE)
    assume "occurrences search2 a = 1"
    then obtain a1 a2 where a: "a = a1 @ search2 @ a2"
      by (rule occurrence_split)
    have "C1 = a1 @ search2 @ (a2 @ replacement1 @ b)"
      using C1 a by simp
    with rules_nonempty(2) o2'
    have "C2 = a1 @ replacement2 @ (a2 @ replacement1 @ b)"
      unfolding C2_def by (rule replace_single_at)
    then have C2: "C2 = a1 @ replacement2 @ a2 @ replacement1 @ b"
      by simp
    have m3: "occurrences search3 a1 + occurrences search3 a2 + occurrences search3 b = 1"
      using n3 unfolding a by (simp add: occurrences_around_block [OF overlap_32])
    have o3': "occurrences search3 C2 = 1"
      unfolding C2 using m3
      by (simp add: occurrences_around_block [OF overlap_3r2]
          occurrences_around_block [OF overlap_3r1])
    from one_of_three [OF m3] show ?thesis
    proof (elim disjE conjE)
      assume "occurrences search3 a1 = 1"
      then obtain p q where a1: "a1 = p @ search3 @ q"
        by (rule occurrence_split)
      have "C2 = p @ search3 @ (q @ replacement2 @ a2 @ replacement1 @ b)"
        using C2 a1 by simp
      with rules_nonempty(3) o3'
      have "replace C2 search3 replacement3 =
          p @ replacement3 @ (q @ replacement2 @ a2 @ replacement1 @ b)"
        by (rule replace_single_at)
      then have "transform C =
          p @ snd (search3, replacement3) @ q @ snd (search2, replacement2) @ a2 @
            snd (search1, replacement1) @ b"
        using T by simp
      moreover have "C =
          p @ fst (search3, replacement3) @ q @ fst (search2, replacement2) @ a2 @
            fst (search1, replacement1) @ b"
        using C a a1 by simp
      moreover have
        "{(search3, replacement3), (search2, replacement2), (search1, replacement1)} = set rules"
        by (auto simp: rules_def)
      ultimately show ?thesis
        by (intro permutation_of_rulesI)
    next
      assume "occurrences search3 a2 = 1"
      then obtain p q where a2: "a2 = p @ search3 @ q"
        by (rule occurrence_split)
      have "C2 = (a1 @ replacement2 @ p) @ search3 @ (q @ replacement1 @ b)"
        using C2 a2 by simp
      with rules_nonempty(3) o3'
      have "replace C2 search3 replacement3 =
          (a1 @ replacement2 @ p) @ replacement3 @ (q @ replacement1 @ b)"
        by (rule replace_single_at)
      then have "transform C =
          a1 @ snd (search2, replacement2) @ p @ snd (search3, replacement3) @ q @
            snd (search1, replacement1) @ b"
        using T by simp
      moreover have "C =
          a1 @ fst (search2, replacement2) @ p @ fst (search3, replacement3) @ q @
            fst (search1, replacement1) @ b"
        using C a a2 by simp
      moreover have
        "{(search2, replacement2), (search3, replacement3), (search1, replacement1)} = set rules"
        by (auto simp: rules_def)
      ultimately show ?thesis
        by (intro permutation_of_rulesI)
    next
      assume "occurrences search3 b = 1"
      then obtain p q where b: "b = p @ search3 @ q"
        by (rule occurrence_split)
      have "C2 = (a1 @ replacement2 @ a2 @ replacement1 @ p) @ search3 @ q"
        using C2 b by simp
      with rules_nonempty(3) o3'
      have "replace C2 search3 replacement3 =
          (a1 @ replacement2 @ a2 @ replacement1 @ p) @ replacement3 @ q"
        by (rule replace_single_at)
      then have "transform C =
          a1 @ snd (search2, replacement2) @ a2 @ snd (search1, replacement1) @ p @
            snd (search3, replacement3) @ q"
        using T by simp
      moreover have "C =
          a1 @ fst (search2, replacement2) @ a2 @ fst (search1, replacement1) @ p @
            fst (search3, replacement3) @ q"
        using C a b by simp
      moreover have
        "{(search2, replacement2), (search1, replacement1), (search3, replacement3)} = set rules"
        by (auto simp: rules_def)
      ultimately show ?thesis
        by (intro permutation_of_rulesI)
    qed
  next
    assume "occurrences search2 b = 1"
    then obtain b1 b2 where b: "b = b1 @ search2 @ b2"
      by (rule occurrence_split)
    have "C1 = (a @ replacement1 @ b1) @ search2 @ b2"
      using C1 b by simp
    with rules_nonempty(2) o2'
    have "C2 = (a @ replacement1 @ b1) @ replacement2 @ b2"
      unfolding C2_def by (rule replace_single_at)
    then have C2: "C2 = a @ replacement1 @ b1 @ replacement2 @ b2"
      by simp
    have m3: "occurrences search3 a + occurrences search3 b1 + occurrences search3 b2 = 1"
      using n3 unfolding b by (simp add: occurrences_around_block [OF overlap_32])
    have o3': "occurrences search3 C2 = 1"
      unfolding C2 using m3
      by (simp add: occurrences_around_block [OF overlap_3r2]
          occurrences_around_block [OF overlap_3r1])
    from one_of_three [OF m3] show ?thesis
    proof (elim disjE conjE)
      assume "occurrences search3 a = 1"
      then obtain p q where a: "a = p @ search3 @ q"
        by (rule occurrence_split)
      have "C2 = p @ search3 @ (q @ replacement1 @ b1 @ replacement2 @ b2)"
        using C2 a by simp
      with rules_nonempty(3) o3'
      have "replace C2 search3 replacement3 =
          p @ replacement3 @ (q @ replacement1 @ b1 @ replacement2 @ b2)"
        by (rule replace_single_at)
      then have "transform C =
          p @ snd (search3, replacement3) @ q @ snd (search1, replacement1) @ b1 @
            snd (search2, replacement2) @ b2"
        using T by simp
      moreover have "C =
          p @ fst (search3, replacement3) @ q @ fst (search1, replacement1) @ b1 @
            fst (search2, replacement2) @ b2"
        using C a b by simp
      moreover have
        "{(search3, replacement3), (search1, replacement1), (search2, replacement2)} = set rules"
        by (auto simp: rules_def)
      ultimately show ?thesis
        by (intro permutation_of_rulesI)
    next
      assume "occurrences search3 b1 = 1"
      then obtain p q where b1: "b1 = p @ search3 @ q"
        by (rule occurrence_split)
      have "C2 = (a @ replacement1 @ p) @ search3 @ (q @ replacement2 @ b2)"
        using C2 b1 by simp
      with rules_nonempty(3) o3'
      have "replace C2 search3 replacement3 =
          (a @ replacement1 @ p) @ replacement3 @ (q @ replacement2 @ b2)"
        by (rule replace_single_at)
      then have "transform C =
          a @ snd (search1, replacement1) @ p @ snd (search3, replacement3) @ q @
            snd (search2, replacement2) @ b2"
        using T by simp
      moreover have "C =
          a @ fst (search1, replacement1) @ p @ fst (search3, replacement3) @ q @
            fst (search2, replacement2) @ b2"
        using C b b1 by simp
      moreover have
        "{(search1, replacement1), (search3, replacement3), (search2, replacement2)} = set rules"
        by (auto simp: rules_def)
      ultimately show ?thesis
        by (intro permutation_of_rulesI)
    next
      assume "occurrences search3 b2 = 1"
      then obtain p q where b2: "b2 = p @ search3 @ q"
        by (rule occurrence_split)
      have "C2 = (a @ replacement1 @ b1 @ replacement2 @ p) @ search3 @ q"
        using C2 b2 by simp
      with rules_nonempty(3) o3'
      have "replace C2 search3 replacement3 =
          (a @ replacement1 @ b1 @ replacement2 @ p) @ replacement3 @ q"
        by (rule replace_single_at)
      then have "transform C =
          a @ snd (search1, replacement1) @ b1 @ snd (search2, replacement2) @ p @
            snd (search3, replacement3) @ q"
        using T by simp
      moreover have "C =
          a @ fst (search1, replacement1) @ b1 @ fst (search2, replacement2) @ p @
            fst (search3, replacement3) @ q"
        using C b b2 by simp
      moreover have
        "{(search1, replacement1), (search2, replacement2), (search3, replacement3)} = set rules"
        by (auto simp: rules_def)
      ultimately show ?thesis
        by (intro permutation_of_rulesI)
    qed
  qed
qed

theorem each_literal_once_replaced_witness:
  "occurrences search1 ''return defer({ defer, Await } from \"react-router\";  });\<newline>};'' = 1 \<and>
   occurrences search2 ''return defer({ defer, Await } from \"react-router\";  });\<newline>};'' = 1 \<and>
   occurrences search3 ''return defer({ defer, Await } from \"react-router\";  });\<newline>};'' = 1 \<and>
   (\<exists>x y z a b c d. {x, y, z} = set rules \<and>
      ''return defer({ defer, Await } from \"react-router\";  });\<newline>};'' =
        a @ fst x @ b @ fst y @ c @ fst z @ d \<and>
      transform ''return defer({ defer, Await } from \"react-router\";  });\<newline>};'' =
        a @ snd x @ b @ snd y @ c @ snd z @ d)"
proof -
  have 1: "occurrences search1
      ''return defer({ defer, Await } from \"react-router\";  });\<newline>};'' = 1"
    by (simp add: occurrences_def search1_def)
  have 2: "occurrences search2
      ''return defer({ defer, Await } from \"react-router\";  });\<newline>};'' = 1"
    by (simp add: occurrences_def search2_def)
  have 3: "occurrences search3
      ''return defer({ defer, Await } from \"react-router\";  });\<newline>};'' = 1"
    by (simp add: occurrences_def search3_def)
  from each_literal_once_replaced [OF 1 2 3] 1 2 3 show ?thesis
    by blast
qed

text \<open>
  C4. A second application of the first two rules. After one application the content
  never contains the second search literal, so applying rule 2 again changes nothing. It contains the first search literal
  exactly when the input contains \<^verbatim>\<open>defer, defer, Await } from "react-router";\<close>
  (rule 1 removes the second \<^verbatim>\<open>defer, \<close> and leaves the search literal behind). Hence
  applying rules 1 and 2 again changes nothing if and only if the input does not contain
  that sequence.
\<close>

theorem second_pass_of_first_two_rules:
  "\<not> sublist search2 (transform C) \<and>
   replace (transform C) search2 replacement2 = transform C \<and>
   (sublist search1 (transform C) \<longleftrightarrow> sublist (''defer, '' @ search1) C) \<and>
   (replace (replace (transform C) search1 replacement1) search2 replacement2 = transform C
      \<longleftrightarrow> \<not> sublist (''defer, '' @ search1) C)"
proof -
  have 2: "\<not> sublist search2 (transform C)"
    by (rule no_search2_after_pass)
  have r2: "replace X search2 replacement2 = X" if "\<not> sublist search2 X" for X
    using rules_nonempty(2) that by (rule replace_absent)
  have 1: "sublist search1 (transform C) \<longleftrightarrow> sublist (''defer, '' @ search1) C"
    using no_search1_after_pass search1_after_pass by blast
  have "replace (replace (transform C) search1 replacement1) search2 replacement2 = transform C
      \<longleftrightarrow> \<not> sublist search1 (transform C)"
  proof
    assume "replace (replace (transform C) search1 replacement1) search2 replacement2 =
        transform C"
    with first_literal_rewritten_again show "\<not> sublist search1 (transform C)"
      by blast
  next
    assume "\<not> sublist search1 (transform C)"
    with rules_nonempty(1) have "replace (transform C) search1 replacement1 = transform C"
      by (rule replace_absent)
    with 2 show "replace (replace (transform C) search1 replacement1) search2 replacement2 =
        transform C"
      by (simp add: r2)
  qed
  with 1 2 r2 show ?thesis
    by simp
qed

theorem second_pass_of_first_two_rules_witness:
  "\<not> sublist (''defer, '' @ search1) ''x defer, Await } from \"react-router\"; return defer({'' \<and>
   \<not> sublist search1 (transform ''x defer, Await } from \"react-router\"; return defer({'') \<and>
   \<not> sublist search2 (transform ''x defer, Await } from \"react-router\"; return defer({'') \<and>
   replace (replace (transform ''x defer, Await } from \"react-router\"; return defer({'')
       search1 replacement1) search2 replacement2 =
     transform ''x defer, Await } from \"react-router\"; return defer({''"
proof -
  have "\<not> sublist (''defer, '' @ search1)
      ''x defer, Await } from \"react-router\"; return defer({''"
    by (simp add: search1_def sublist_Cons_right)
  with second_pass_of_first_two_rules
    [of "''x defer, Await } from \"react-router\"; return defer({''"]
  show ?thesis
    by blast
qed

theorem second_pass_changes_first_rule_counterexample:
  "sublist search1 (transform ''defer, defer, Await } from \"react-router\";'') \<and>
   replace (replace (transform ''defer, defer, Await } from \"react-router\";'')
      search1 replacement1) search2 replacement2 \<noteq>
     transform ''defer, defer, Await } from \"react-router\";'' \<and>
   transform (transform ''defer, defer, Await } from \"react-router\";'') \<noteq>
     transform ''defer, defer, Await } from \"react-router\";''"
  by (simp add: transform_def search1_def search2_def search3_def
      replacement1_def replacement2_def replacement3_def sublist_Cons_right)

end
